theory Spec2Isabelle
  imports Complex_Main "HOL-Library.Sublist"
begin

section \<open>Words API: the dataset loader and the listing handler of backend/main.py\<close>

subsection \<open>Python values\<close>

text \<open>
  The records of the API are Python dictionaries \<^verbatim>\<open>dict[str, Any]\<close>. A dictionary is an
  association list in insertion order, read with \<open>map_of\<close> (\<^verbatim>\<open>d.get(k)\<close>); its values are
  the two kinds of value the program stores, integers and strings.

  A Python string is a sequence of code points. The model covers the code points below
  256, one \<open>char\<close> each; on these \<^verbatim>\<open>str.lower\<close> and \<^verbatim>\<open>str.strip\<close> work character by
  character as defined below.
\<close>

datatype pyval = PyInt int | PyStr string

type_synonym item = "(string \<times> pyval) list"

datatype error = FileNotFoundError | RequestValidationError | AttributeError

text \<open>\<^verbatim>\<open>str.isspace\<close> on one code point below 256: TAB, LF, VT, FF, CR, FS, GS, RS, US, space,
  NEL and NBSP.\<close>

definition isspace :: "char \<Rightarrow> bool" where
  "isspace c =
     (let n = (of_char c :: nat)
      in (9 \<le> n \<and> n \<le> 13) \<or> (28 \<le> n \<and> n \<le> 32) \<or> n = 133 \<or> n = 160)"

text \<open>\<^verbatim>\<open>s.strip()\<close>: leading and trailing whitespace removed.\<close>

definition strip :: "string \<Rightarrow> string" where
  "strip s = rev (dropWhile isspace (rev (dropWhile isspace s)))"

text \<open>\<^verbatim>\<open>s.lower()\<close>: the letters A-Z and the capital letters of Latin-1 (0xC0-0xDE without the
  multiplication sign 0xD7) move up by 32; every other code point below 256 stays.\<close>

definition lower_char :: "char \<Rightarrow> char" where
  "lower_char c =
     (let n = (of_char c :: nat)
      in if (65 \<le> n \<and> n \<le> 90) \<or> (192 \<le> n \<and> n \<le> 222 \<and> n \<noteq> 215)
         then char_of (n + 32) else c)"

definition lower :: "string \<Rightarrow> string" where
  "lower s = map lower_char s"

text \<open>\<^verbatim>\<open>needle in s\<close> on strings: \<open>needle\<close> occurs in \<open>s\<close> as a contiguous run.\<close>

definition str_in :: "string \<Rightarrow> string \<Rightarrow> bool" where
  "str_in needle s = sublist needle s"

subsection \<open>The dataset loader\<close>

text \<open>
  The backing file is read through \<^verbatim>\<open>csv.DictReader\<close>. The model starts from what the
  program sees of it: either the path does not exist, or the reader yields a sequence of
  row dictionaries. In a row a column of the header that the line is too short for holds
  \<open>None\<close>, and a column the header does not name is no key at all. (Fields beyond the
  header go under the key \<open>None\<close>, which the program never reads; they are left out.)
  Decoding the bytes and splitting lines into fields is the csv library's work and not
  part of the model, and neither are the errors of \<^verbatim>\<open>open\<close> and of the library.
\<close>

type_synonym csv_row = "(string \<times> string option) list"

datatype csv_source = Missing | Rows "csv_row list"

text \<open>\<^verbatim>\<open>row.get(k)\<close>\<close>

definition row_get :: "csv_row \<Rightarrow> string \<Rightarrow> string option" where
  "row_get row k = (case map_of row k of None \<Rightarrow> None | Some v \<Rightarrow> v)"

text \<open>\<^verbatim>\<open>v or ""\<close> for \<open>v\<close> a string or \<open>None\<close>\<close>

definition or_empty :: "string option \<Rightarrow> string" where
  "or_empty v = (case v of None \<Rightarrow> '''' | Some s \<Rightarrow> if s = '''' then '''' else s)"

text \<open>The dictionary literal of lines 35-46.\<close>

definition make_item :: "int \<Rightarrow> csv_row \<Rightarrow> item" where
  "make_item idx row =
     [(''id'', PyInt idx),
      (''word'', PyStr (strip (or_empty (row_get row ''word'')))),
      (''pronunciation'', PyStr (strip (or_empty (row_get row ''pronunciation'')))),
      (''definition'', PyStr (strip (or_empty (row_get row ''definition'')))),
      (''example'', PyStr (strip (or_empty (row_get row ''example'')))),
      (''audio'', PyStr (strip (or_empty (row_get row ''audio'')))),
      (''image'', PyStr (strip (or_empty (row_get row ''image'')))),
      (''file'', PyStr (strip (or_empty (row_get row ''file'')))),
      (''part_of_speech'', PyStr (strip (or_empty (row_get row ''part_of_speech'')))),
      (''word_uz'', PyStr (strip (or_empty (row_get row ''word_uz''))))]"

text \<open>The loop \<^verbatim>\<open>for idx, row in enumerate(reader, start=1): items.append({...})\<close>.\<close>

fun load_loop :: "int \<Rightarrow> csv_row list \<Rightarrow> item list \<Rightarrow> item list" where
  "load_loop idx [] items = items"
| "load_loop idx (row # reader) items = load_loop (idx + 1) reader (items @ [make_item idx row])"

text \<open>The body of \<^verbatim>\<open>load_words\<close>, as \<^verbatim>\<open>load_words.__wrapped__\<close> runs it.\<close>

definition load_words_wrapped :: "csv_source \<Rightarrow> error + item list" where
  "load_words_wrapped src =
     (case src of
        Missing \<Rightarrow> Inl FileNotFoundError
      | Rows reader \<Rightarrow> Inr (load_loop 1 reader []))"

text \<open>
  \<^verbatim>\<open>@lru_cache(maxsize=1)\<close> on a function without arguments: one slot, filled by the first
  call that returns; a call that raises stores nothing.
\<close>

record app_state =
  lru_cache :: "item list option"

definition load_words :: "csv_source \<Rightarrow> app_state \<Rightarrow> (error + item list) \<times> app_state" where
  "load_words src st =
     (case lru_cache st of
        Some items \<Rightarrow> (Inr items, st)
      | None \<Rightarrow>
          (case load_words_wrapped src of
             Inl e \<Rightarrow> (Inl e, st)
           | Inr items \<Rightarrow> (Inr items, st\<lparr>lru_cache := Some items\<rparr>)))"

subsection \<open>The listing handler\<close>

text \<open>\<^verbatim>\<open>item.get(k) or ""\<close>: the value under \<open>k\<close> when there is one and it is truthy, else
  the empty string.\<close>

fun truthy :: "pyval \<Rightarrow> bool" where
  "truthy (PyInt n) = (n \<noteq> 0)"
| "truthy (PyStr s) = (s \<noteq> '''')"

definition get_or_empty :: "item \<Rightarrow> string \<Rightarrow> pyval" where
  "get_or_empty item k =
     (case map_of item k of
        None \<Rightarrow> PyStr ''''
      | Some v \<Rightarrow> if truthy v then v else PyStr '''')"

text \<open>\<^verbatim>\<open>v.lower()\<close>: a string method; an integer has none.\<close>

fun py_lower :: "pyval \<Rightarrow> error + string" where
  "py_lower (PyStr s) = Inr (lower s)"
| "py_lower (PyInt n) = Inl AttributeError"

text \<open>\<^verbatim>\<open>needle in (item.get(k) or "").lower()\<close>\<close>

definition needle_in :: "string \<Rightarrow> item \<Rightarrow> string \<Rightarrow> error + bool" where
  "needle_in needle item k =
     (case py_lower (get_or_empty item k) of
        Inl e \<Rightarrow> Inl e
      | Inr s \<Rightarrow> Inr (str_in needle s))"

text \<open>\<^verbatim>\<open>a or b\<close> on conditions that may raise: \<open>b\<close> is evaluated only when \<open>a\<close> is false.\<close>

fun py_or :: "error + bool \<Rightarrow> error + bool \<Rightarrow> error + bool" where
  "py_or (Inl e) b = Inl e"
| "py_or (Inr True) b = Inr True"
| "py_or (Inr False) b = b"

text \<open>The condition of the comprehension, lines 88-92.\<close>

definition item_matches :: "string \<Rightarrow> item \<Rightarrow> error + bool" where
  "item_matches needle item =
     py_or (needle_in needle item ''word'')
       (py_or (needle_in needle item ''definition'')
          (py_or (needle_in needle item ''example'')
             (py_or (needle_in needle item ''word_uz'')
                (needle_in needle item ''part_of_speech''))))"

text \<open>The comprehension \<^verbatim>\<open>[item for item in all_words if ...]\<close>, lines 85-93.\<close>

fun comprehension :: "string \<Rightarrow> item list \<Rightarrow> error + item list" where
  "comprehension needle [] = Inr []"
| "comprehension needle (item # all_words) =
     (case item_matches needle item of
        Inl e \<Rightarrow> Inl e
      | Inr keep \<Rightarrow>
          (case comprehension needle all_words of
             Inl e \<Rightarrow> Inl e
           | Inr rest \<Rightarrow> Inr (if keep then item # rest else rest)))"

text \<open>Lines 82-93: \<^verbatim>\<open>filtered\<close> from \<^verbatim>\<open>all_words\<close> and \<^verbatim>\<open>q\<close>.\<close>

definition filter_words :: "item list \<Rightarrow> string option \<Rightarrow> error + item list" where
  "filter_words all_words q =
     (case q of
        None \<Rightarrow> Inr all_words
      | Some s \<Rightarrow>
          if strip s \<noteq> '''' then comprehension (lower (strip s)) all_words
          else Inr all_words)"

text \<open>\<^verbatim>\<open>v or d\<close> for \<open>v\<close> an integer or \<open>None\<close>.\<close>

definition int_or :: "int option \<Rightarrow> int \<Rightarrow> int" where
  "int_or v d = (case v of None \<Rightarrow> d | Some n \<Rightarrow> if n = 0 then d else n)"

text \<open>\<^verbatim>\<open>xs[start:end]\<close> with Python's clamping of both bounds and negative bounds counted
  from the end.\<close>

definition py_slice :: "'a list \<Rightarrow> int \<Rightarrow> int \<Rightarrow> 'a list" where
  "py_slice xs start stop =
     (let n = int (length xs);
          lo = (if start < 0 then max (start + n) 0 else min start n);
          hi = (if stop < 0 then max (stop + n) 0 else min stop n)
      in take (nat (hi - lo)) (drop (nat lo) xs))"

text \<open>Line 105: \<^verbatim>\<open>(total + limit_value - 1) // limit_value if limit_value else 1\<close>.\<close>

definition pages :: "int \<Rightarrow> int \<Rightarrow> int" where
  "pages total_value limit_value =
     (if limit_value \<noteq> 0 then (total_value + limit_value - 1) div limit_value else 1)"

record meta =
  meta_total :: int
  meta_page :: int
  meta_limit :: int
  meta_pages :: int
  meta_q :: string

datatype response = Bare "item list" | Envelope meta "item list"

text \<open>The constraints of the \<^verbatim>\<open>Query\<close> declarations, lines 70-71: \<^verbatim>\<open>page\<close> with \<^verbatim>\<open>ge=1\<close>,
  \<^verbatim>\<open>limit\<close> with \<^verbatim>\<open>ge=1, le=500\<close>. The framework checks them before it calls the function.\<close>

definition query_ok :: "int option \<Rightarrow> int option \<Rightarrow> bool" where
  "query_ok page limit =
     ((case page of None \<Rightarrow> True | Some p \<Rightarrow> 1 \<le> p) \<and>
      (case limit of None \<Rightarrow> True | Some l \<Rightarrow> 1 \<le> l \<and> l \<le> 500))"

definition get_words ::
  "csv_source \<Rightarrow> app_state \<Rightarrow> string option \<Rightarrow> int option \<Rightarrow> int option
     \<Rightarrow> (error + response) \<times> app_state" where
  "get_words src st q page limit =
     (if \<not> query_ok page limit then (Inl RequestValidationError, st)
      else
        case load_words src st of
          (Inl e, st') \<Rightarrow> (Inl e, st')
        | (Inr all_words, st') \<Rightarrow>
            (let wants_pagination = (q \<noteq> None \<or> page \<noteq> None \<or> limit \<noteq> None)
             in case filter_words all_words q of
                  Inl e \<Rightarrow> (Inl e, st')
                | Inr filtered \<Rightarrow>
                    if \<not> wants_pagination then (Inr (Bare filtered), st')
                    else
                      (let page_value = int_or page 1;
                           limit_value = int_or limit 50;
                           total = int (length filtered);
                           start = (page_value - 1) * limit_value;
                           end = start + limit_value;
                           items = py_slice filtered start end
                       in (Inr (Envelope
                                 \<lparr>meta_total = total, meta_page = page_value,
                                  meta_limit = limit_value,
                                  meta_pages = pages total limit_value,
                                  meta_q = or_empty q\<rparr>
                                 items), st'))))"

subsection \<open>Notions the properties are stated with\<close>

text \<open>The nine textual keys of a record, in the order of the dictionary literal.\<close>

definition text_fields :: "string list" where
  "text_fields = [''word'', ''pronunciation'', ''definition'', ''example'', ''audio'',
     ''image'', ''file'', ''part_of_speech'', ''word_uz'']"

text \<open>\<open>s\<close> is \<open>raw\<close> without its leading and trailing whitespace: what was cut off on
  both sides is whitespace only, and \<open>s\<close> neither starts nor ends with whitespace.\<close>

definition is_stripped :: "string \<Rightarrow> string \<Rightarrow> bool" where
  "is_stripped raw s =
     (\<exists>pre post. raw = pre @ s @ post \<and> list_all isspace pre \<and> list_all isspace post \<and>
        (s = '''' \<or> (\<not> isspace (hd s) \<and> \<not> isspace (last s))))"

text \<open>The five keys the search looks at.\<close>

definition searched_fields :: "string list" where
  "searched_fields = [''word'', ''definition'', ''example'', ''word_uz'', ''part_of_speech'']"

text \<open>The text a record holds under a key: the string stored there, and the empty string
  when the key is missing or holds no string.\<close>

definition field_text :: "item \<Rightarrow> string \<Rightarrow> string" where
  "field_text R k = (case map_of R k of Some (PyStr s) \<Rightarrow> s | _ \<Rightarrow> '''')"

text \<open>The search of the specification: the needle is a substring of the lowercased text
  of at least one searched field.\<close>

definition record_matches :: "string \<Rightarrow> item \<Rightarrow> bool" where
  "record_matches needle R =
     (\<exists>k\<in>set searched_fields. sublist needle (lower (field_text R k)))"

text \<open>The states the process can be in: the cache is empty, or it holds what a run of the
  load routine returned.\<close>

definition loaded :: "app_state \<Rightarrow> bool" where
  "loaded st =
     (case lru_cache st of
        None \<Rightarrow> True
      | Some all_words \<Rightarrow> (\<exists>reader. load_words_wrapped (Rows reader) = Inr all_words))"

text \<open>A request: the file as it is when the request arrives, and \<^verbatim>\<open>q\<close>, \<^verbatim>\<open>page\<close>,
  \<^verbatim>\<open>limit\<close>. \<open>serve\<close> handles a sequence of requests one after the other and returns the
  state they leave.\<close>

type_synonym request = "csv_source \<times> string option \<times> int option \<times> int option"

fun serve :: "app_state \<Rightarrow> request list \<Rightarrow> app_state" where
  "serve st [] = st"
| "serve st ((src, q, page, limit) # requests) =
     serve (snd (get_words src st q page limit)) requests"

text \<open>A record whose searched keys all hold strings, as the records of the loader do.\<close>

definition str_fields :: "item \<Rightarrow> bool" where
  "str_fields item = (\<forall>k\<in>set searched_fields. \<exists>s. map_of item k = Some (PyStr s))"

text \<open>A small backing file for concrete runs: three rows, the second too short for the
  \<open>pronunciation\<close> column, the third with the word \<open>fruit\<close> in its pronunciation only.\<close>

definition example_rows :: "csv_row list" where
  "example_rows =
     [[(''word'', Some ''Apple''), (''definition'', Some ''a fruit ''),
       (''pronunciation'', Some ''ap-uhl'')],
      [(''word'', Some ''Banana''), (''definition'', Some ''a Fruit''),
       (''pronunciation'', None)],
      [(''word'', Some ''Car''), (''definition'', Some ''a vehicle''),
       (''pronunciation'', Some ''fruit'')]]"

definition example_words :: "item list" where
  "example_words = load_loop 1 example_rows []"

section \<open>Properties of the loader\<close>

lemma strip_is_stripped: "is_stripped raw (strip raw)"
proof -
  define t where "t = dropWhile isspace raw"
  define u where "u = dropWhile isspace (rev t)"
  have raw: "raw = takeWhile isspace raw @ t"
    by (simp add: t_def)
  have "rev t = takeWhile isspace (rev t) @ u"
    by (simp add: u_def)
  then have "rev (rev t) = rev (takeWhile isspace (rev t) @ u)"
    by simp
  then have t: "t = rev u @ rev (takeWhile isspace (rev t))"
    by simp
  have s: "strip raw = rev u"
    by (simp add: strip_def t_def u_def)
  have pre: "list_all isspace (takeWhile isspace raw)"
    by (simp add: list_all_iff) (meson set_takeWhileD)
  have post: "list_all isspace (rev (takeWhile isspace (rev t)))"
    by (simp add: list_all_iff) (meson set_takeWhileD)
  have ends: "rev u = [] \<or> (\<not> isspace (hd (rev u)) \<and> \<not> isspace (last (rev u)))"
  proof (cases "u = []")
    case True
    then show ?thesis by simp
  next
    case False
    then have l: "\<not> isspace (last (rev u))"
      by (simp add: last_rev u_def hd_dropWhile)
    have "t \<noteq> []" using False u_def by auto
    then have "\<not> isspace (hd t)"
      by (simp add: t_def hd_dropWhile)
    moreover have "hd t = hd (rev u)"
      using t False by (metis hd_append2 rev_is_Nil_conv)
    ultimately show ?thesis using l by simp
  qed
  have "raw = takeWhile isspace raw @ rev u @ rev (takeWhile isspace (rev t))"
    using raw t by simp
  then show ?thesis
    unfolding is_stripped_def s using pre post ends by blast
qed

lemma strip_empty: "strip '''' = ''''"
  by (simp add: strip_def)

lemma or_empty_row_get:
  "or_empty (row_get row k) = (case map_of row k of Some (Some raw) \<Rightarrow> raw | _ \<Rightarrow> '''')"
  by (simp add: or_empty_def row_get_def split: option.splits)

lemma stripped_field:
  "case map_of row k of
     Some (Some raw) \<Rightarrow> is_stripped raw (strip (or_empty (row_get row k)))
   | _ \<Rightarrow> strip (or_empty (row_get row k)) = ''''"
  by (simp add: or_empty_row_get strip_empty strip_is_stripped split: option.splits)

lemma load_loop_closed:
  "load_loop idx reader items =
     items @ map (\<lambda>i. make_item (idx + int i) (reader ! i)) [0..<length reader]"
proof (induction reader arbitrary: idx items)
  case Nil
  then show ?case by simp
next
  case (Cons row reader)
  have "map (\<lambda>i. make_item (idx + int i) ((row # reader) ! i)) [0..<length (row # reader)] =
        make_item idx row # map (\<lambda>i. make_item (idx + 1 + int i) (reader ! i)) [0..<length reader]"
    by (simp add: map_upt_Suc add.commute add.left_commute del: upt_Suc)
  then show ?case
    by (simp add: Cons.IH)
qed

lemma load_words_wrapped_Rows:
  "load_words_wrapped (Rows reader) =
     Inr (map (\<lambda>i. make_item (1 + int i) (reader ! i)) [0..<length reader])"
  by (simp add: load_words_wrapped_def load_loop_closed)

lemma make_item_keys: "map fst (make_item idx row) = ''id'' # text_fields"
  by (simp add: make_item_def text_fields_def)

lemma make_item_id: "map_of (make_item idx row) ''id'' = Some (PyInt idx)"
  by (simp add: make_item_def)

lemma make_item_text:
  "k \<in> set text_fields \<Longrightarrow>
     map_of (make_item idx row) k = Some (PyStr (strip (or_empty (row_get row k))))"
  by (auto simp: make_item_def text_fields_def)

lemma loaded_ids:
  assumes len: "length items = length reader"
    and nth: "\<And>i. i < length reader \<Longrightarrow> items ! i = make_item (1 + int i) (reader ! i)"
  shows "distinct (map (\<lambda>item. map_of item ''id'') items)"
  unfolding distinct_conv_nth
proof (intro allI impI)
  fix i j
  assume "i < length (map (\<lambda>item. map_of item ''id'') items)"
    and "j < length (map (\<lambda>item. map_of item ''id'') items)" and "i \<noteq> j"
  then show "map (\<lambda>item. map_of item ''id'') items ! i \<noteq>
             map (\<lambda>item. map_of item ''id'') items ! j"
    by (simp add: len nth make_item_id)
qed

lemma make_item_record:
  "map fst (make_item idx row) = ''id'' # text_fields \<and>
   map_of (make_item idx row) ''id'' = Some (PyInt idx) \<and>
   (\<forall>k\<in>set text_fields. \<exists>s. map_of (make_item idx row) k = Some (PyStr s) \<and>
      (case map_of row k of
         Some (Some raw) \<Rightarrow> is_stripped raw s
       | _ \<Rightarrow> s = ''''))"
proof -
  have "\<exists>s. map_of (make_item idx row) k = Some (PyStr s) \<and>
      (case map_of row k of
         Some (Some raw) \<Rightarrow> is_stripped raw s
       | _ \<Rightarrow> s = '''')" if "k \<in> set text_fields" for k
    using stripped_field [of row k] make_item_text [OF that, of idx row] by blast
  then show ?thesis
    using make_item_keys make_item_id by blast
qed

text \<open>
  C6. When the backing source exists, the load returns one record per row of the reader,
  in the reader's order. The record at 0-based position \<open>i\<close> has exactly the ten keys
  \<open>id\<close>, \<open>word\<close>, ..., \<open>word_uz\<close>; its \<open>id\<close> is the integer \<open>1 + i\<close>, so the ids are
  consecutive from 1 and pairwise distinct; each of the nine textual keys holds a string,
  which is the row's value without its leading and trailing whitespace when the row has a
  value there, and the empty string when the row has no such key or holds \<open>None\<close>. On an
  empty cache \<^verbatim>\<open>load_words()\<close> returns this list and stores it.
\<close>

theorem load_words_records:
  "\<exists>items. load_words_wrapped (Rows reader) = Inr items \<and>
     (lru_cache st = None \<longrightarrow>
        load_words (Rows reader) st = (Inr items, st\<lparr>lru_cache := Some items\<rparr>)) \<and>
     length items = length reader \<and>
     distinct (map (\<lambda>item. map_of item ''id'') items) \<and>
     (\<forall>i<length reader.
        map fst (items ! i) = ''id'' # text_fields \<and>
        map_of (items ! i) ''id'' = Some (PyInt (1 + int i)) \<and>
        (\<forall>k\<in>set text_fields. \<exists>s. map_of (items ! i) k = Some (PyStr s) \<and>
           (case map_of (reader ! i) k of
              Some (Some raw) \<Rightarrow> is_stripped raw s
            | _ \<Rightarrow> s = '''')))"
proof -
  define items where
    "items = map (\<lambda>i. make_item (1 + int i) (reader ! i)) [0..<length reader]"
  have run: "load_words_wrapped (Rows reader) = Inr items"
    by (simp add: items_def load_words_wrapped_Rows)
  have cached: "lru_cache st = None \<longrightarrow>
      load_words (Rows reader) st = (Inr items, st\<lparr>lru_cache := Some items\<rparr>)"
    by (simp add: load_words_def run)
  have len: "length items = length reader"
    by (simp add: items_def)
  have nth: "items ! i = make_item (1 + int i) (reader ! i)" if "i < length reader" for i
    using that by (simp add: items_def)
  have ids: "distinct (map (\<lambda>item. map_of item ''id'') items)"
    using len nth by (rule loaded_ids)
  have each: "\<forall>i<length reader.
        map fst (items ! i) = ''id'' # text_fields \<and>
        map_of (items ! i) ''id'' = Some (PyInt (1 + int i)) \<and>
        (\<forall>k\<in>set text_fields. \<exists>s. map_of (items ! i) k = Some (PyStr s) \<and>
           (case map_of (reader ! i) k of
              Some (Some raw) \<Rightarrow> is_stripped raw s
            | _ \<Rightarrow> s = ''''))"
  proof (intro allI impI)
    fix i assume i: "i < length reader"
    show "map fst (items ! i) = ''id'' # text_fields \<and>
        map_of (items ! i) ''id'' = Some (PyInt (1 + int i)) \<and>
        (\<forall>k\<in>set text_fields. \<exists>s. map_of (items ! i) k = Some (PyStr s) \<and>
           (case map_of (reader ! i) k of
              Some (Some raw) \<Rightarrow> is_stripped raw s
            | _ \<Rightarrow> s = ''''))"
      unfolding nth [OF i] by (rule make_item_record)
  qed
  from run cached len ids each show ?thesis
    by (intro exI [of _ items] conjI)
qed

theorem load_words_records_witness:
  "\<exists>items.
     load_words_wrapped
       (Rows [[(''word'', Some ''  Apple ''), (''definition'', Some ''a fruit'')],
              [(''word'', Some ''Car''), (''definition'', None)]]) = Inr items \<and>
     load_words
       (Rows [[(''word'', Some ''  Apple ''), (''definition'', Some ''a fruit'')],
              [(''word'', Some ''Car''), (''definition'', None)]]) \<lparr>lru_cache = None\<rparr>
       = (Inr items, \<lparr>lru_cache = Some items\<rparr>) \<and>
     length items = 2 \<and>
     map_of (items ! 0) ''id'' = Some (PyInt 1) \<and>
     map_of (items ! 1) ''id'' = Some (PyInt 2) \<and>
     map_of (items ! 0) ''word'' = Some (PyStr ''Apple'') \<and>
     map_of (items ! 0) ''audio'' = Some (PyStr '''') \<and>
     map_of (items ! 1) ''definition'' = Some (PyStr '''')"
proof -
  define reader :: "csv_row list" where
    "reader = [[(''word'', Some ''  Apple ''), (''definition'', Some ''a fruit'')],
               [(''word'', Some ''Car''), (''definition'', None)]]"
  from load_words_records [of reader "\<lparr>lru_cache = None\<rparr>"]
  obtain items where all:
    "load_words_wrapped (Rows reader) = Inr items \<and>
     (lru_cache \<lparr>lru_cache = None\<rparr> = None \<longrightarrow>
        load_words (Rows reader) \<lparr>lru_cache = None\<rparr>
          = (Inr items, \<lparr>lru_cache = None\<rparr>\<lparr>lru_cache := Some items\<rparr>)) \<and>
     length items = length reader \<and>
     distinct (map (\<lambda>item. map_of item ''id'') items) \<and>
     (\<forall>i<length reader.
        map fst (items ! i) = ''id'' # text_fields \<and>
        map_of (items ! i) ''id'' = Some (PyInt (1 + int i)) \<and>
        (\<forall>k\<in>set text_fields. \<exists>s. map_of (items ! i) k = Some (PyStr s) \<and>
           (case map_of (reader ! i) k of
              Some (Some raw) \<Rightarrow> is_stripped raw s
            | _ \<Rightarrow> s = '''')))" ..
  note run = all [THEN conjunct1]
  note cached = all [THEN conjunct2, THEN conjunct1]
  note len = all [THEN conjunct2, THEN conjunct2, THEN conjunct1]
  note each = all [THEN conjunct2, THEN conjunct2, THEN conjunct2, THEN conjunct2, rule_format]
  have l: "length items = 2"
    using len by (simp add: reader_def)
  have c: "load_words (Rows reader) \<lparr>lru_cache = None\<rparr> = (Inr items, \<lparr>lru_cache = Some items\<rparr>)"
    using cached by simp
  have lt0: "0 < length reader" and lt1: "1 < length reader"
    by (simp_all add: reader_def)
  note e0 = each [OF lt0, THEN conjunct2]
  note e1 = each [OF lt1, THEN conjunct2]
  have i0: "map_of (items ! 0) ''id'' = Some (PyInt 1)"
    using e0 [THEN conjunct1] by simp
  have i1: "map_of (items ! 1) ''id'' = Some (PyInt 2)"
    using e1 [THEN conjunct1] by simp
  have "''audio'' \<in> set text_fields"
    by (simp add: text_fields_def)
  from e0 [THEN conjunct2, THEN bspec, OF this]
  have "\<exists>s. map_of (items ! 0) ''audio'' = Some (PyStr s) \<and>
           (case map_of (reader ! 0) ''audio'' of
              Some (Some raw) \<Rightarrow> is_stripped raw s
            | _ \<Rightarrow> s = '''')" .
  moreover have "map_of (reader ! 0) ''audio'' = None"
    by (simp add: reader_def)
  ultimately have a0: "map_of (items ! 0) ''audio'' = Some (PyStr '''')"
    by simp
  have "''definition'' \<in> set text_fields"
    by (simp add: text_fields_def)
  from e1 [THEN conjunct2, THEN bspec, OF this]
  have "\<exists>s. map_of (items ! 1) ''definition'' = Some (PyStr s) \<and>
           (case map_of (reader ! 1) ''definition'' of
              Some (Some raw) \<Rightarrow> is_stripped raw s
            | _ \<Rightarrow> s = '''')" .
  moreover have "map_of (reader ! 1) ''definition'' = Some None"
    by (simp add: reader_def)
  ultimately have d1: "map_of (items ! 1) ''definition'' = Some (PyStr '''')"
    by simp
  have "load_words_wrapped (Rows reader) =
      Inr [make_item 1 (reader ! 0), make_item 2 (reader ! 1)]"
    by (simp add: load_words_wrapped_def reader_def)
  with run have "Inr items = (Inr [make_item 1 (reader ! 0), make_item 2 (reader ! 1)] :: error + item list)"
    by (rule trans [OF sym])
  then have "items = [make_item 1 (reader ! 0), make_item 2 (reader ! 1)]"
    by (simp only: sum.inject)
  then have "items ! 0 = make_item 1 (reader ! 0)"
    by (simp only: nth_Cons_0)
  moreover have "strip (or_empty (row_get (reader ! 0) ''word'')) = ''Apple''"
    by (simp add: reader_def strip_def isspace_def or_empty_def row_get_def)
  ultimately have w0: "map_of (items ! 0) ''word'' = Some (PyStr ''Apple'')"
    by (simp add: make_item_def)
  from run c l i0 i1 w0 a0 d1 show ?thesis
    unfolding reader_def by (intro exI [of _ items] conjI)
qed



section \<open>Properties of the listing handler\<close>

subsection \<open>The search on loaded records\<close>

lemma needle_in_str:
  "map_of item k = Some (PyStr s) \<Longrightarrow>
     needle_in needle item k = Inr (sublist needle (lower (field_text item k)))"
  by (simp add: needle_in_def get_or_empty_def field_text_def str_in_def lower_def)

lemma str_fields_needle_in:
  assumes "str_fields item" and "k \<in> set searched_fields"
  shows "needle_in needle item k = Inr (sublist needle (lower (field_text item k)))"
proof -
  from assms obtain s where "map_of item k = Some (PyStr s)"
    unfolding str_fields_def by blast
  then show ?thesis by (rule needle_in_str)
qed

lemma py_or_Inr: "py_or (Inr a) (Inr b) = Inr (a \<or> b)"
  by (cases a) simp_all

lemma item_matches_str_fields:
  assumes "str_fields item"
  shows "item_matches needle item = Inr (record_matches needle item)"
proof -
  have "needle_in needle item k = Inr (sublist needle (lower (field_text item k)))"
    if "k \<in> set searched_fields" for k
    using assms that by (rule str_fields_needle_in)
  then show ?thesis
    by (simp add: item_matches_def record_matches_def searched_fields_def py_or_Inr)
qed

lemma comprehension_str_fields:
  "\<forall>item\<in>set all_words. str_fields item \<Longrightarrow>
     comprehension needle all_words = Inr (filter (record_matches needle) all_words)"
  by (induction all_words) (simp_all add: item_matches_str_fields)

lemma make_item_str_fields: "str_fields (make_item idx row)"
  by (simp add: str_fields_def searched_fields_def make_item_def)

lemma load_words_wrapped_str_fields:
  assumes "load_words_wrapped src = Inr all_words"
  shows "\<forall>item\<in>set all_words. str_fields item"
proof (cases src)
  case Missing
  with assms show ?thesis by (simp add: load_words_wrapped_def)
next
  case (Rows reader)
  with assms have "all_words = map (\<lambda>i. make_item (1 + int i) (reader ! i)) [0..<length reader]"
    by (simp add: load_words_wrapped_Rows)
  then show ?thesis
    by (simp add: make_item_str_fields)
qed

lemma filter_words_loaded:
  assumes "load_words_wrapped src = Inr all_words"
  shows "filter_words all_words q =
     Inr (case q of
            None \<Rightarrow> all_words
          | Some s \<Rightarrow>
              if strip s \<noteq> '''' then filter (record_matches (lower (strip s))) all_words
              else all_words)"
  using comprehension_str_fields [OF load_words_wrapped_str_fields [OF assms]]
  by (simp add: filter_words_def split: option.splits)

lemma needle_in_cong:
  "map_of R k = map_of R' k \<Longrightarrow> needle_in needle R k = needle_in needle R' k"
  by (simp add: needle_in_def get_or_empty_def)

lemma item_matches_cong:
  assumes "\<forall>k\<in>set searched_fields. map_of R k = map_of R' k"
  shows "item_matches needle R = item_matches needle R'"
proof -
  have same: "needle_in needle R k = needle_in needle R' k" if "k \<in> set searched_fields" for k
  proof -
    from assms that have "map_of R k = map_of R' k"
      by blast
    then show ?thesis
      by (rule needle_in_cong)
  qed
  have w: "needle_in needle R ''word'' = needle_in needle R' ''word''"
    by (rule same) (simp add: searched_fields_def)
  have d: "needle_in needle R ''definition'' = needle_in needle R' ''definition''"
    by (rule same) (simp add: searched_fields_def)
  have e: "needle_in needle R ''example'' = needle_in needle R' ''example''"
    by (rule same) (simp add: searched_fields_def)
  have u: "needle_in needle R ''word_uz'' = needle_in needle R' ''word_uz''"
    by (rule same) (simp add: searched_fields_def)
  have p: "needle_in needle R ''part_of_speech'' = needle_in needle R' ''part_of_speech''"
    by (rule same) (simp add: searched_fields_def)
  show ?thesis
    unfolding item_matches_def w d e u p ..
qed

subsection \<open>Slices and the page count\<close>

lemma py_slice_window:
  assumes "0 \<le> start" and "0 \<le> l"
  shows "py_slice xs start (start + l) = take (nat l) (drop (nat start) xs)"
proof (cases "start \<le> int (length xs)")
  case True
  have "py_slice xs start (start + l) =
      take (nat (min (start + l) (int (length xs)) - start)) (drop (nat start) xs)"
    using assms True by (simp add: py_slice_def Let_def)
  also have "nat (min (start + l) (int (length xs)) - start) =
      min (nat l) (length (drop (nat start) xs))"
    using assms True by (simp add: min_def) linarith
  also have "take (min (nat l) (length (drop (nat start) xs))) (drop (nat start) xs) =
      take (nat l) (drop (nat start) xs)"
    by (simp add: min_def)
  finally show ?thesis .
next
  case False
  with assms show ?thesis
    by (simp add: py_slice_def Let_def min_def)
qed

lemma pages_ceiling:
  assumes "0 < l"
  shows "pages t l = \<lceil>real_of_int t / real_of_int l\<rceil>"
proof -
  define z where "z = (t + l - 1) div l"
  have split: "t + l - 1 = l * z + (t + l - 1) mod l"
    by (simp add: z_def)
  have "0 \<le> (t + l - 1) mod l" and "(t + l - 1) mod l < l"
    using assms by simp_all
  with split have lo: "(z - 1) * l < t" and hi: "t \<le> z * l"
    by (simp_all add: algebra_simps)
  from lo have "real_of_int ((z - 1) * l) < real_of_int t"
    by (simp only: of_int_less_iff)
  then have "(real_of_int z - 1) * real_of_int l < real_of_int t"
    by simp
  then have a: "real_of_int z - 1 < real_of_int t / real_of_int l"
    using assms by (simp add: pos_less_divide_eq)
  from hi have "real_of_int t \<le> real_of_int (z * l)"
    by (simp only: of_int_le_iff)
  then have "real_of_int t \<le> real_of_int z * real_of_int l"
    by simp
  then have b: "real_of_int t / real_of_int l \<le> real_of_int z"
    using assms by (simp add: pos_divide_le_eq)
  from a b have "\<lceil>real_of_int t / real_of_int l\<rceil> = z"
    by (rule ceiling_unique)
  then show ?thesis
    using assms by (simp add: pages_def z_def)
qed

subsection \<open>The handler, branch by branch\<close>

lemma or_empty_q: "or_empty q = (case q of None \<Rightarrow> '''' | Some s \<Rightarrow> s)"
  by (simp add: or_empty_def split: option.splits)

lemma query_ok_page:
  "query_ok page limit \<Longrightarrow>
     int_or page 1 = (case page of None \<Rightarrow> 1 | Some p \<Rightarrow> p) \<and> 1 \<le> int_or page 1"
  by (auto simp: query_ok_def int_or_def split: option.splits)

lemma query_ok_limit:
  "query_ok page limit \<Longrightarrow>
     int_or limit 50 = (case limit of None \<Rightarrow> 50 | Some l \<Rightarrow> l) \<and>
     1 \<le> int_or limit 50 \<and> int_or limit 50 \<le> 500"
  by (auto simp: query_ok_def int_or_def split: option.splits)

lemma load_words_cached: "lru_cache st = Some all_words \<Longrightarrow> load_words src st = (Inr all_words, st)"
  by (simp add: load_words_def)

lemma load_words_result:
  assumes "load_words src st = (Inr all_words, st')"
  shows "lru_cache st' = Some all_words"
  using assms by (auto simp: load_words_def split: option.splits sum.splits)

lemma load_words_loaded:
  assumes "loaded st" and "load_words src st = (Inr all_words, st')"
  shows "\<exists>reader. load_words_wrapped (Rows reader) = Inr all_words"
proof (cases "lru_cache st")
  case None
  with assms(2) have run: "load_words_wrapped src = Inr all_words"
    by (auto simp: load_words_def split: sum.splits)
  then obtain reader where "src = Rows reader"
    by (cases src) (simp_all add: load_words_wrapped_def)
  with run show ?thesis by blast
next
  case (Some ws)
  with assms(2) have "ws = all_words"
    by (simp add: load_words_def)
  with assms(1) Some show ?thesis
    by (simp add: loaded_def)
qed

text \<open>What a request that passes the parameter check gets once the dataset is there.\<close>

lemma get_words_loaded:
  assumes ok: "query_ok page limit"
    and load: "load_words src st = (Inr all_words, st')"
    and filt: "filter_words all_words q = Inr filtered"
  shows "get_words src st q page limit =
     (Inr (if q = None \<and> page = None \<and> limit = None then Bare filtered
           else Envelope
                  \<lparr>meta_total = int (length filtered), meta_page = int_or page 1,
                   meta_limit = int_or limit 50,
                   meta_pages = pages (int (length filtered)) (int_or limit 50),
                   meta_q = or_empty q\<rparr>
                  (take (nat (int_or limit 50))
                     (drop (nat ((int_or page 1 - 1) * int_or limit 50)) filtered))), st')"
proof -
  have "0 \<le> (int_or page 1 - 1) * int_or limit 50" and "0 \<le> int_or limit 50"
    using query_ok_page [OF ok] query_ok_limit [OF ok] by simp_all
  then have "py_slice filtered ((int_or page 1 - 1) * int_or limit 50)
        ((int_or page 1 - 1) * int_or limit 50 + int_or limit 50) =
      take (nat (int_or limit 50))
        (drop (nat ((int_or page 1 - 1) * int_or limit 50)) filtered)"
    by (rule py_slice_window)
  then show ?thesis
    using ok by (simp add: get_words_def load filt Let_def)
qed

text \<open>Where an answer of the handler comes from.\<close>

lemma get_words_Inr:
  assumes "get_words src st q page limit = (Inr r, st')"
  shows "query_ok page limit \<and>
     (\<exists>all_words filtered. load_words src st = (Inr all_words, st') \<and>
        filter_words all_words q = Inr filtered)"
proof -
  have ok: "query_ok page limit"
    using assms by (auto simp: get_words_def split: if_splits)
  obtain res st1 where load: "load_words src st = (res, st1)"
    by (cases "load_words src st")
  show ?thesis
  proof (cases res)
    case (Inl e)
    with assms ok load show ?thesis
      by (simp add: get_words_def)
  next
    case (Inr all_words)
    note res = this
    show ?thesis
    proof (cases "filter_words all_words q")
      case (Inl e)
      with assms ok load res show ?thesis
        by (simp add: get_words_def Let_def)
    next
      case (Inr filtered)
      with assms ok load res have "st1 = st'"
        by (simp add: get_words_def Let_def split: if_splits)
      with ok load res Inr show ?thesis
        by simp
    qed
  qed
qed

lemma get_words_state:
  "lru_cache st = Some all_words \<Longrightarrow> snd (get_words src st q page limit) = st"
  by (simp add: get_words_def load_words_cached Let_def split: sum.splits)

lemma serve_cached: "lru_cache st = Some all_words \<Longrightarrow> serve st requests = st"
proof (induction requests)
  case Nil
  then show ?case by simp
next
  case (Cons request requests)
  obtain src q page limit where "request = (src, q, page, limit)"
    by (cases request)
  with Cons show ?case
    by (simp add: get_words_state)
qed

subsection \<open>The cache in a sequential run\<close>

text \<open>Calls that follow one another: after a call that returned, every later call returns
  the same list and does not look at the file; a call that raised has stored nothing, so
  the next call runs the load routine again.\<close>

lemma load_words_memoized:
  assumes "load_words src st = (Inr all_words, st')"
  shows "load_words src' st' = (Inr all_words, st')"
  using load_words_result [OF assms] by (rule load_words_cached)

lemma load_words_raise_stores_nothing:
  assumes "load_words src st = (Inl e, st')"
  shows "st' = st \<and> lru_cache st = None \<and> load_words src st' = (Inl e, st')"
  using assms by (auto simp: load_words_def split: option.splits sum.splits)

lemma get_words_Envelope:
  assumes "get_words src st q page limit = (Inr (Envelope m items), st')"
  shows "\<exists>all_words filtered.
     query_ok page limit \<and> load_words src st = (Inr all_words, st') \<and>
     filter_words all_words q = Inr filtered \<and>
     (q \<noteq> None \<or> page \<noteq> None \<or> limit \<noteq> None) \<and>
     m = \<lparr>meta_total = int (length filtered), meta_page = int_or page 1,
          meta_limit = int_or limit 50,
          meta_pages = pages (int (length filtered)) (int_or limit 50),
          meta_q = or_empty q\<rparr> \<and>
     items = take (nat (int_or limit 50))
               (drop (nat ((int_or page 1 - 1) * int_or limit 50)) filtered)"
proof -
  from get_words_Inr [OF assms] obtain all_words filtered
    where ok: "query_ok page limit"
      and load: "load_words src st = (Inr all_words, st')"
      and filt: "filter_words all_words q = Inr filtered"
    by blast
  from assms get_words_loaded [OF ok load filt] have
    "(if q = None \<and> page = None \<and> limit = None then Bare filtered
      else Envelope
             \<lparr>meta_total = int (length filtered), meta_page = int_or page 1,
              meta_limit = int_or limit 50,
              meta_pages = pages (int (length filtered)) (int_or limit 50),
              meta_q = or_empty q\<rparr>
             (take (nat (int_or limit 50))
                (drop (nat ((int_or page 1 - 1) * int_or limit 50)) filtered)))
     = Envelope m items"
    by simp
  then have "(q \<noteq> None \<or> page \<noteq> None \<or> limit \<noteq> None) \<and>
     m = \<lparr>meta_total = int (length filtered), meta_page = int_or page 1,
          meta_limit = int_or limit 50,
          meta_pages = pages (int (length filtered)) (int_or limit 50),
          meta_q = or_empty q\<rparr> \<and>
     items = take (nat (int_or limit 50))
               (drop (nat ((int_or page 1 - 1) * int_or limit 50)) filtered)"
    by (auto split: if_splits)
  with ok load filt show ?thesis
    by blast
qed

lemma example_loaded: "load_words_wrapped (Rows example_rows) = Inr example_words"
  by (simp add: load_words_wrapped_def example_words_def)

lemma example_first_call:
  "load_words (Rows example_rows) \<lparr>lru_cache = None\<rparr> =
     (Inr example_words, \<lparr>lru_cache = Some example_words\<rparr>)"
  by (simp add: load_words_def example_loaded)

subsection \<open>The claims about the handler\<close>

text \<open>
  C1. The mode depends on which parameters are present. Once the dataset is loaded, a
  request without \<open>q\<close>, \<open>page\<close> and \<open>limit\<close> is answered with the loaded list itself, as
  a bare list; a request that supplies at least one of them, with \<open>page\<close> and \<open>limit\<close>
  inside their declared ranges, is answered with the envelope of \<open>meta\<close> and \<open>items\<close>,
  also when the one supplied is the empty \<open>q\<close>.
\<close>

theorem mode_selection:
  assumes "loaded st" and "load_words src st = (Inr all_words, st')"
  shows "get_words src st None None None = (Inr (Bare all_words), st') \<and>
     (\<forall>q page limit.
        (q \<noteq> None \<or> page \<noteq> None \<or> limit \<noteq> None) \<and> query_ok page limit \<longrightarrow>
        (\<exists>m items. get_words src st q page limit = (Inr (Envelope m items), st')))"
proof -
  from load_words_loaded [OF assms] obtain reader
    where run: "load_words_wrapped (Rows reader) = Inr all_words" ..
  have none: "filter_words all_words None = Inr all_words"
    by (simp add: filter_words_def)
  have "query_ok None None"
    by (simp add: query_ok_def)
  from get_words_loaded [OF this assms(2) none]
  have bare: "get_words src st None None None = (Inr (Bare all_words), st')"
    by simp
  have "\<exists>m items. get_words src st q page limit = (Inr (Envelope m items), st')"
    if some: "q \<noteq> None \<or> page \<noteq> None \<or> limit \<noteq> None" and ok: "query_ok page limit"
    for q page limit
  proof -
    from filter_words_loaded [OF run] obtain filtered
      where "filter_words all_words q = Inr filtered"
      by blast
    from get_words_loaded [OF ok assms(2) this] some show ?thesis
      by auto
  qed
  with bare show ?thesis
    by blast
qed

theorem mode_selection_witness:
  "loaded \<lparr>lru_cache = None\<rparr> \<and>
   load_words (Rows example_rows) \<lparr>lru_cache = None\<rparr> =
     (Inr example_words, \<lparr>lru_cache = Some example_words\<rparr>) \<and>
   get_words (Rows example_rows) \<lparr>lru_cache = None\<rparr> None None None =
     (Inr (Bare example_words), \<lparr>lru_cache = Some example_words\<rparr>) \<and>
   (\<exists>m items. get_words (Rows example_rows) \<lparr>lru_cache = None\<rparr> (Some '''') None None =
     (Inr (Envelope m items), \<lparr>lru_cache = Some example_words\<rparr>))"
proof -
  have l: "loaded \<lparr>lru_cache = None\<rparr>"
    by (simp add: loaded_def)
  note m = mode_selection [OF l example_first_call]
  have "(Some '''' \<noteq> (None :: string option) \<or> (None :: int option) \<noteq> None \<or>
      (None :: int option) \<noteq> None) \<and> query_ok None None"
    by (simp add: query_ok_def)
  with m have "\<exists>m items.
      get_words (Rows example_rows) \<lparr>lru_cache = None\<rparr> (Some '''') None None =
        (Inr (Envelope m items), \<lparr>lru_cache = Some example_words\<rparr>)"
    by blast
  with l example_first_call m show ?thesis
    by blast
qed

text \<open>
  C2. On a loaded dataset, a \<open>q\<close> that is not blank after stripping keeps exactly the
  records that match the needle, \<open>q\<close> stripped and lowercased, in at least one of
  \<open>word\<close>, \<open>definition\<close>, \<open>example\<close>, \<open>word_uz\<close>, \<open>part_of_speech\<close> (lowercased), in
  their original order; an absent or blank \<open>q\<close> keeps every record. Whether a record
  matches depends on those five values only: two records that agree on them match alike,
  whatever \<open>pronunciation\<close>, \<open>audio\<close>, \<open>image\<close> and \<open>file\<close> hold.
\<close>

theorem filter_words_search:
  assumes "load_words_wrapped src = Inr all_words"
  shows "(\<forall>s. strip s \<noteq> '''' \<longrightarrow>
            filter_words all_words (Some s) =
              Inr (filter (record_matches (lower (strip s))) all_words)) \<and>
     (\<forall>s. strip s = '''' \<longrightarrow> filter_words all_words (Some s) = Inr all_words) \<and>
     filter_words all_words None = Inr all_words \<and>
     (\<forall>needle R R'. (\<forall>k\<in>set searched_fields. map_of R k = map_of R' k) \<longrightarrow>
        item_matches needle R = item_matches needle R')"
proof -
  have "filter_words all_words (Some s) =
      Inr (filter (record_matches (lower (strip s))) all_words)" if "strip s \<noteq> ''''" for s
    using filter_words_loaded [OF assms, of "Some s"] that by simp
  moreover have "filter_words all_words (Some s) = Inr all_words" if "strip s = ''''" for s
    using that by (simp add: filter_words_def)
  moreover have "filter_words all_words None = Inr all_words"
    by (simp add: filter_words_def)
  moreover have "item_matches needle R = item_matches needle R'"
    if "\<forall>k\<in>set searched_fields. map_of R k = map_of R' k" for needle R R'
    using that by (rule item_matches_cong)
  ultimately show ?thesis
    by blast
qed

theorem filter_words_search_witness:
  "load_words_wrapped (Rows example_rows) = Inr example_words \<and>
   strip '' FRUIT '' \<noteq> '''' \<and>
   filter_words example_words (Some '' FRUIT '') = Inr (take 2 example_words) \<and>
   strip ''  '' = '''' \<and>
   filter_words example_words (Some ''  '') = Inr example_words \<and>
   filter_words example_words None = Inr example_words"
proof -
  note f = filter_words_search [OF example_loaded]
  have s1: "strip '' FRUIT '' \<noteq> ''''"
    by code_simp
  have s2: "strip ''  '' = ''''"
    by code_simp
  have "filter (record_matches (lower (strip '' FRUIT ''))) example_words = take 2 example_words"
    by code_simp
  moreover from f s1 have "filter_words example_words (Some '' FRUIT '') =
      Inr (filter (record_matches (lower (strip '' FRUIT ''))) example_words)"
    by blast
  ultimately have a: "filter_words example_words (Some '' FRUIT '') = Inr (take 2 example_words)"
    by simp
  from f s2 have b: "filter_words example_words (Some ''  '') = Inr example_words"
    by blast
  from f have c: "filter_words example_words None = Inr example_words"
    by blast
  from example_loaded s1 a s2 b c show ?thesis
    by (intro conjI)
qed

text \<open>
  C3. In paginated mode, with \<open>page\<close> and \<open>limit\<close> inside their declared ranges, the
  answer is an envelope whose effective page \<open>p\<close> and limit \<open>l\<close> are at least 1 and whose
  \<open>items\<close> are the filtered records at the offsets from \<open>(p - 1) * l\<close> up to but not
  including \<open>(p - 1) * l + l\<close>, as far as there are any: at most \<open>l\<close> of them, in order.
  When the offset is at or beyond the number of filtered records, \<open>items\<close> is empty and
  the answer is still an envelope. The slice expression of lines 102-104 gives this
  window for every \<open>p \<ge> 1\<close> and \<open>l \<ge> 1\<close>.
\<close>

theorem pagination_slice:
  assumes "loaded st" and "load_words src st = (Inr all_words, st')"
    and "query_ok page limit" and "q \<noteq> None \<or> page \<noteq> None \<or> limit \<noteq> None"
  shows "(\<exists>m items filtered.
       get_words src st q page limit = (Inr (Envelope m items), st') \<and>
       filter_words all_words q = Inr filtered \<and>
       meta_total m = int (length filtered) \<and>
       1 \<le> meta_page m \<and> 1 \<le> meta_limit m \<and>
       items = take (nat (meta_limit m)) (drop (nat ((meta_page m - 1) * meta_limit m)) filtered) \<and>
       length items =
         min (nat (meta_limit m)) (length filtered - nat ((meta_page m - 1) * meta_limit m)) \<and>
       (\<forall>j<length items. items ! j = filtered ! (nat ((meta_page m - 1) * meta_limit m) + j)) \<and>
       (meta_total m \<le> (meta_page m - 1) * meta_limit m \<longrightarrow> items = [])) \<and>
     (\<forall>(xs :: item list) p l. 1 \<le> p \<and> 1 \<le> l \<longrightarrow>
        py_slice xs ((p - 1) * l) ((p - 1) * l + l) = take (nat l) (drop (nat ((p - 1) * l)) xs) \<and>
        (int (length xs) \<le> (p - 1) * l \<longrightarrow> py_slice xs ((p - 1) * l) ((p - 1) * l + l) = []))"
proof -
  from load_words_loaded [OF assms(1,2)] obtain reader
    where run: "load_words_wrapped (Rows reader) = Inr all_words" ..
  from filter_words_loaded [OF run] obtain filtered
    where filt: "filter_words all_words q = Inr filtered"
    by blast
  define p where "p = int_or page 1"
  define l where "l = int_or limit 50"
  define m where "m = \<lparr>meta_total = int (length filtered), meta_page = p, meta_limit = l,
      meta_pages = pages (int (length filtered)) l, meta_q = or_empty q\<rparr>"
  define items where "items = take (nat l) (drop (nat ((p - 1) * l)) filtered)"
  have p1: "1 \<le> p" and l1: "1 \<le> l"
    using query_ok_page [OF assms(3)] query_ok_limit [OF assms(3)] by (simp_all add: p_def l_def)
  have resp: "get_words src st q page limit = (Inr (Envelope m items), st')"
    using get_words_loaded [OF assms(3) assms(2) filt] assms(4)
    by (auto simp: m_def items_def p_def l_def)
  have len: "length items = min (nat l) (length filtered - nat ((p - 1) * l))"
    by (simp add: items_def)
  have nth: "\<forall>j<length items. items ! j = filtered ! (nat ((p - 1) * l) + j)"
  proof (intro allI impI)
    fix j assume "j < length items"
    then have "j < nat l" and "nat ((p - 1) * l) \<le> length filtered"
      by (auto simp: items_def)
    then show "items ! j = filtered ! (nat ((p - 1) * l) + j)"
      by (simp add: items_def)
  qed
  have off: "0 \<le> (p - 1) * l"
    using p1 l1 by simp
  have empty: "int (length filtered) \<le> (p - 1) * l \<longrightarrow> items = []"
    using off by (simp add: items_def)
  have first: "\<exists>m items filtered.
       get_words src st q page limit = (Inr (Envelope m items), st') \<and>
       filter_words all_words q = Inr filtered \<and>
       meta_total m = int (length filtered) \<and>
       1 \<le> meta_page m \<and> 1 \<le> meta_limit m \<and>
       items = take (nat (meta_limit m)) (drop (nat ((meta_page m - 1) * meta_limit m)) filtered) \<and>
       length items =
         min (nat (meta_limit m)) (length filtered - nat ((meta_page m - 1) * meta_limit m)) \<and>
       (\<forall>j<length items. items ! j = filtered ! (nat ((meta_page m - 1) * meta_limit m) + j)) \<and>
       (meta_total m \<le> (meta_page m - 1) * meta_limit m \<longrightarrow> items = [])"
  proof (rule exI [of _ m], rule exI [of _ items], rule exI [of _ filtered], intro conjI)
    show "get_words src st q page limit = (Inr (Envelope m items), st')"
      by (rule resp)
    show "filter_words all_words q = Inr filtered"
      by (rule filt)
    show "meta_total m = int (length filtered)"
      by (simp add: m_def)
    show "1 \<le> meta_page m" and "1 \<le> meta_limit m"
      using p1 l1 by (simp_all add: m_def)
    show "items = take (nat (meta_limit m)) (drop (nat ((meta_page m - 1) * meta_limit m)) filtered)"
      by (simp add: m_def items_def)
    show "length items =
        min (nat (meta_limit m)) (length filtered - nat ((meta_page m - 1) * meta_limit m))"
      using len by (simp add: m_def)
    show "\<forall>j<length items. items ! j = filtered ! (nat ((meta_page m - 1) * meta_limit m) + j)"
      using nth by (simp add: m_def)
    show "meta_total m \<le> (meta_page m - 1) * meta_limit m \<longrightarrow> items = []"
      using empty by (simp add: m_def)
  qed
  have second: "py_slice xs ((p - 1) * l) ((p - 1) * l + l) = take (nat l) (drop (nat ((p - 1) * l)) xs) \<and>
        (int (length xs) \<le> (p - 1) * l \<longrightarrow> py_slice xs ((p - 1) * l) ((p - 1) * l + l) = [])"
    if "1 \<le> p \<and> 1 \<le> l" for xs :: "item list" and p l :: int
  proof -
    from that have "0 \<le> (p - 1) * l" and "0 \<le> l"
      by simp_all
    then have w: "py_slice xs ((p - 1) * l) ((p - 1) * l + l) =
        take (nat l) (drop (nat ((p - 1) * l)) xs)"
      by (rule py_slice_window)
    have "int (length xs) \<le> (p - 1) * l \<longrightarrow> take (nat l) (drop (nat ((p - 1) * l)) xs) = []"
      using \<open>0 \<le> (p - 1) * l\<close> by simp
    with w show ?thesis
      by simp
  qed
  from first second show ?thesis
    by blast
qed

theorem pagination_slice_witness:
  "loaded \<lparr>lru_cache = None\<rparr> \<and>
   load_words (Rows example_rows) \<lparr>lru_cache = None\<rparr> =
     (Inr example_words, \<lparr>lru_cache = Some example_words\<rparr>) \<and>
   query_ok (Some 2) (Some 2) \<and>
   (\<exists>m. get_words (Rows example_rows) \<lparr>lru_cache = None\<rparr> None (Some 2) (Some 2) =
     (Inr (Envelope m (drop 2 example_words)), \<lparr>lru_cache = Some example_words\<rparr>)) \<and>
   (\<exists>m. get_words (Rows example_rows) \<lparr>lru_cache = None\<rparr> None (Some 3) (Some 2) =
     (Inr (Envelope m []), \<lparr>lru_cache = Some example_words\<rparr>)) \<and>
   py_slice example_words ((2 - 1) * 2) ((2 - 1) * 2 + 2) = drop 2 example_words"
proof -
  have l: "loaded \<lparr>lru_cache = None\<rparr>"
    by (simp add: loaded_def)
  have ok2: "query_ok (Some 2) (Some 2)" and ok3: "query_ok (Some 3) (Some 2)"
    by (simp_all add: query_ok_def)
  have len: "length example_words = 3"
    by (simp add: example_words_def example_rows_def)
  have none: "filter_words example_words None = Inr example_words"
    by (simp add: filter_words_def)
  from pagination_slice [OF l example_first_call ok2, of None]
  obtain m items filtered
    where r: "get_words (Rows example_rows) \<lparr>lru_cache = None\<rparr> None (Some 2) (Some 2) =
        (Inr (Envelope m items), \<lparr>lru_cache = Some example_words\<rparr>)"
      and f: "filter_words example_words None = Inr filtered"
      and i: "items = take (nat (meta_limit m)) (drop (nat ((meta_page m - 1) * meta_limit m)) filtered)"
    by auto
  from get_words_Envelope [OF r] have "meta_page m = 2" "meta_limit m = 2"
    by (auto simp: int_or_def)
  with i f none len have "items = drop 2 example_words"
    by simp
  with r have a: "\<exists>m. get_words (Rows example_rows) \<lparr>lru_cache = None\<rparr> None (Some 2) (Some 2) =
     (Inr (Envelope m (drop 2 example_words)), \<lparr>lru_cache = Some example_words\<rparr>)"
    by blast
  from pagination_slice [OF l example_first_call ok3, of None]
  obtain m' items' filtered'
    where r': "get_words (Rows example_rows) \<lparr>lru_cache = None\<rparr> None (Some 3) (Some 2) =
        (Inr (Envelope m' items'), \<lparr>lru_cache = Some example_words\<rparr>)"
      and f': "filter_words example_words None = Inr filtered'"
      and t': "meta_total m' = int (length filtered')"
      and e': "meta_total m' \<le> (meta_page m' - 1) * meta_limit m' \<longrightarrow> items' = []"
    by auto
  from get_words_Envelope [OF r'] have "meta_page m' = 3" "meta_limit m' = 2"
    by (auto simp: int_or_def)
  with e' t' f' none len have "items' = []"
    by simp
  with r' have b: "\<exists>m. get_words (Rows example_rows) \<lparr>lru_cache = None\<rparr> None (Some 3) (Some 2) =
     (Inr (Envelope m []), \<lparr>lru_cache = Some example_words\<rparr>)"
    by blast
  have "(1::int) \<le> 2 \<and> (1::int) \<le> 2"
    by simp
  with pagination_slice [OF l example_first_call ok2, of None]
  have "py_slice example_words ((2 - 1) * 2) ((2 - 1) * 2 + 2) =
      take (nat 2) (drop (nat ((2 - 1) * 2)) example_words)"
    by blast
  with len have c: "py_slice example_words ((2 - 1) * 2) ((2 - 1) * 2 + 2) = drop 2 example_words"
    by simp
  from l example_first_call ok2 a b c show ?thesis
    by (intro conjI)
qed

lemma get_words_meta:
  assumes "get_words src st q page limit = (Inr (Envelope m items), st')"
  shows "\<exists>filtered :: item list.
     query_ok page limit \<and>
     m = \<lparr>meta_total = int (length filtered), meta_page = int_or page 1,
          meta_limit = int_or limit 50,
          meta_pages = pages (int (length filtered)) (int_or limit 50),
          meta_q = or_empty q\<rparr>"
proof -
  from get_words_Envelope [OF assms] obtain all_words
    where "\<exists>filtered.
     query_ok page limit \<and> load_words src st = (Inr all_words, st') \<and>
     filter_words all_words q = Inr filtered \<and>
     (q \<noteq> None \<or> page \<noteq> None \<or> limit \<noteq> None) \<and>
     m = \<lparr>meta_total = int (length filtered), meta_page = int_or page 1,
          meta_limit = int_or limit 50,
          meta_pages = pages (int (length filtered)) (int_or limit 50),
          meta_q = or_empty q\<rparr> \<and>
     items = take (nat (int_or limit 50))
               (drop (nat ((int_or page 1 - 1) * int_or limit 50)) filtered)" ..
  then obtain filtered
    where all: "query_ok page limit \<and> load_words src st = (Inr all_words, st') \<and>
     filter_words all_words q = Inr filtered \<and>
     (q \<noteq> None \<or> page \<noteq> None \<or> limit \<noteq> None) \<and>
     m = \<lparr>meta_total = int (length filtered), meta_page = int_or page 1,
          meta_limit = int_or limit 50,
          meta_pages = pages (int (length filtered)) (int_or limit 50),
          meta_q = or_empty q\<rparr> \<and>
     items = take (nat (int_or limit 50))
               (drop (nat ((int_or page 1 - 1) * int_or limit 50)) filtered)" ..
  note ok = all [THEN conjunct1]
  note m = all [THEN conjunct2, THEN conjunct2, THEN conjunct2, THEN conjunct2, THEN conjunct1]
  show ?thesis
    by (rule exI [of _ filtered], rule conjI) (rule ok, rule m)
qed

text \<open>
  C4. In every paginated answer the effective limit is positive and \<open>meta.pages\<close> is the
  value of the expression of line 105 on \<open>meta.total\<close> and \<open>meta.limit\<close>, which is
  \<open>(total + limit - 1) div limit\<close>, the ceiling of \<open>total / limit\<close>. The expression gives
  the ceiling for every positive limit, and 1 for the limit 0.
\<close>

theorem pages_formula:
  "(get_words src st q page limit = (Inr (Envelope m items), st') \<longrightarrow>
      0 < meta_limit m \<and>
      meta_pages m = pages (meta_total m) (meta_limit m) \<and>
      meta_pages m = (meta_total m + meta_limit m - 1) div meta_limit m \<and>
      meta_pages m = \<lceil>real_of_int (meta_total m) / real_of_int (meta_limit m)\<rceil>) \<and>
   (0 < l \<longrightarrow>
      pages t l = (t + l - 1) div l \<and> pages t l = \<lceil>real_of_int t / real_of_int l\<rceil>) \<and>
   pages t 0 = 1"
proof -
  have general: "pages t l = (t + l - 1) div l \<and> pages t l = \<lceil>real_of_int t / real_of_int l\<rceil>"
    if "0 < l" for t l
    using that pages_ceiling [OF that, of t] by (simp add: pages_def)
  have "0 < meta_limit m \<and>
      meta_pages m = pages (meta_total m) (meta_limit m) \<and>
      meta_pages m = (meta_total m + meta_limit m - 1) div meta_limit m \<and>
      meta_pages m = \<lceil>real_of_int (meta_total m) / real_of_int (meta_limit m)\<rceil>"
    if resp: "get_words src st q page limit = (Inr (Envelope m items), st')"
  proof -
    from get_words_meta [OF resp] obtain filtered :: "item list"
      where ok: "query_ok page limit"
        and m: "m = \<lparr>meta_total = int (length filtered), meta_page = int_or page 1,
          meta_limit = int_or limit 50,
          meta_pages = pages (int (length filtered)) (int_or limit 50),
          meta_q = or_empty q\<rparr>"
      by blast
    have pos: "0 < meta_limit m"
      using query_ok_limit [OF ok] by (simp add: m)
    have eq: "meta_pages m = pages (meta_total m) (meta_limit m)"
      by (simp add: m)
    from pos eq general [OF pos, of "meta_total m"] show ?thesis
      by simp
  qed
  moreover have "pages t 0 = 1"
    by (simp add: pages_def)
  ultimately show ?thesis
    using general by blast
qed

theorem pages_formula_witness:
  "get_words (Rows example_rows) \<lparr>lru_cache = None\<rparr> (Some ''a'') None (Some 2) =
     (Inr (Envelope
            \<lparr>meta_total = 3, meta_page = 1, meta_limit = 2, meta_pages = 2, meta_q = ''a''\<rparr>
            (take 2 example_words)),
      \<lparr>lru_cache = Some example_words\<rparr>) \<and>
   (2::int) = (3 + 2 - 1) div 2 \<and>
   (2::int) = \<lceil>real_of_int 3 / real_of_int 2\<rceil> \<and>
   (0::int) < 3 \<and> pages 10 3 = 4 \<and> \<lceil>real_of_int 10 / real_of_int 3\<rceil> = 4 \<and>
   pages 10 0 = 1"
proof -
  have r: "get_words (Rows example_rows) \<lparr>lru_cache = None\<rparr> (Some ''a'') None (Some 2) =
     (Inr (Envelope
            \<lparr>meta_total = 3, meta_page = 1, meta_limit = 2, meta_pages = 2, meta_q = ''a''\<rparr>
            (take 2 example_words)),
      \<lparr>lru_cache = Some example_words\<rparr>)"
    by code_simp
  note f = pages_formula
    [of "Rows example_rows" "\<lparr>lru_cache = None\<rparr>" "Some ''a''" None "Some 2"
      "\<lparr>meta_total = 3, meta_page = 1, meta_limit = 2, meta_pages = 2, meta_q = ''a''\<rparr>"
      "take 2 example_words" "\<lparr>lru_cache = Some example_words\<rparr>" 3 10]
  from f r have a: "(2::int) = (3 + 2 - 1) div 2"
    and b: "(2::int) = \<lceil>real_of_int 3 / real_of_int 2\<rceil>"
    by simp_all
  have pos: "(0::int) < 3"
    by simp
  with f have "pages 10 3 = (10 + 3 - 1) div 3"
    and c: "pages 10 3 = \<lceil>real_of_int 10 / real_of_int 3\<rceil>"
    by blast+
  then have d: "pages 10 3 = 4"
    by simp
  with c have e: "\<lceil>real_of_int 10 / real_of_int 3\<rceil> = 4"
    by simp
  from f have z: "pages 10 0 = 1"
    by blast
  from r a b pos d e z show ?thesis
    by (intro conjI)
qed

text \<open>
  C5. In every paginated answer \<open>meta.page\<close> is the \<open>page\<close> supplied, or 1 when none was;
  \<open>meta.limit\<close> is the \<open>limit\<close> supplied, or 50 when none was; \<open>meta.q\<close> is \<open>q\<close> as it
  was supplied, or the empty string when none was.
\<close>

theorem meta_echo:
  assumes "get_words src st q page limit = (Inr (Envelope m items), st')"
  shows "meta_page m = (case page of None \<Rightarrow> 1 | Some p \<Rightarrow> p) \<and>
     meta_limit m = (case limit of None \<Rightarrow> 50 | Some l \<Rightarrow> l) \<and>
     meta_q m = (case q of None \<Rightarrow> '''' | Some s \<Rightarrow> s)"
proof -
  from get_words_meta [OF assms] obtain filtered :: "item list"
    where ok: "query_ok page limit"
      and m: "m = \<lparr>meta_total = int (length filtered), meta_page = int_or page 1,
        meta_limit = int_or limit 50,
        meta_pages = pages (int (length filtered)) (int_or limit 50),
        meta_q = or_empty q\<rparr>"
    by blast
  from query_ok_page [OF ok] query_ok_limit [OF ok] show ?thesis
    by (simp add: m or_empty_q)
qed

theorem meta_echo_witness:
  "get_words (Rows example_rows) \<lparr>lru_cache = None\<rparr> (Some '' Fruit'') (Some 2) None =
     (Inr (Envelope
            \<lparr>meta_total = 2, meta_page = 2, meta_limit = 50, meta_pages = 1,
               meta_q = '' Fruit''\<rparr> []),
      \<lparr>lru_cache = Some example_words\<rparr>) \<and>
   meta_page \<lparr>meta_total = 2, meta_page = 2, meta_limit = 50, meta_pages = 1,
               meta_q = '' Fruit''\<rparr> = 2 \<and>
   meta_limit \<lparr>meta_total = 2, meta_page = 2, meta_limit = 50, meta_pages = 1,
               meta_q = '' Fruit''\<rparr> = 50 \<and>
   meta_q \<lparr>meta_total = 2, meta_page = 2, meta_limit = 50, meta_pages = 1,
               meta_q = '' Fruit''\<rparr> = '' Fruit''"
proof -
  have r: "get_words (Rows example_rows) \<lparr>lru_cache = None\<rparr> (Some '' Fruit'') (Some 2) None =
     (Inr (Envelope
            \<lparr>meta_total = 2, meta_page = 2, meta_limit = 50, meta_pages = 1,
               meta_q = '' Fruit''\<rparr> []),
      \<lparr>lru_cache = Some example_words\<rparr>)"
    by code_simp
  from meta_echo [OF r] r show ?thesis
    by simp
qed

text \<open>
  C9. The handler leaves the cached dataset as it is. With the cache filled, a request,
  whatever its parameters and whatever the file is by then, returns the state it was
  given; so does any sequence of requests, and \<^verbatim>\<open>load_words()\<close> afterwards returns the same
  list as before. In particular, once \<^verbatim>\<open>load_words()\<close> has returned a list, it returns
  that list after any number of listing requests.
\<close>

theorem handler_keeps_cache:
  "(lru_cache st = Some all_words \<longrightarrow>
      snd (get_words src st q page limit) = st \<and>
      serve st requests = st \<and>
      load_words src' (serve st requests) = (Inr all_words, serve st requests)) \<and>
   (load_words src st = (Inr all_words, st') \<longrightarrow>
      serve st' requests = st' \<and>
      fst (load_words src' (serve st' requests)) = Inr all_words)"
proof -
  have filled: "snd (get_words src st q page limit) = st \<and>
      serve st requests = st \<and>
      load_words src' (serve st requests) = (Inr all_words, serve st requests)"
    if c: "lru_cache st = Some all_words" for st :: app_state
    using get_words_state [OF c] serve_cached [OF c] load_words_cached [OF c]
    by simp
  have "serve st' requests = st' \<and>
      fst (load_words src' (serve st' requests)) = Inr all_words"
    if "load_words src st = (Inr all_words, st')"
  proof -
    from that have c: "lru_cache st' = Some all_words"
      by (rule load_words_result)
    from serve_cached [OF c] load_words_cached [OF c] show ?thesis
      by simp
  qed
  with filled show ?thesis
    by blast
qed

theorem handler_keeps_cache_witness:
  "lru_cache \<lparr>lru_cache = Some example_words\<rparr> = Some example_words \<and>
   snd (get_words Missing \<lparr>lru_cache = Some example_words\<rparr> (Some ''car'') None None) =
     \<lparr>lru_cache = Some example_words\<rparr> \<and>
   serve \<lparr>lru_cache = Some example_words\<rparr>
     [(Rows example_rows, Some ''car'', None, None), (Missing, None, Some 0, None),
      (Rows [], None, None, None)] = \<lparr>lru_cache = Some example_words\<rparr> \<and>
   load_words (Rows example_rows) \<lparr>lru_cache = None\<rparr> =
     (Inr example_words, \<lparr>lru_cache = Some example_words\<rparr>) \<and>
   fst (load_words (Rows [])
     (serve \<lparr>lru_cache = Some example_words\<rparr>
        [(Rows example_rows, Some ''car'', None, None), (Missing, None, Some 0, None),
         (Rows [], None, None, None)])) = Inr example_words"
proof -
  have c: "lru_cache \<lparr>lru_cache = Some example_words\<rparr> = Some example_words"
    by simp
  note k = handler_keeps_cache
    [of "\<lparr>lru_cache = Some example_words\<rparr>" example_words Missing "Some ''car''" None None
      "[(Rows example_rows, Some ''car'', None, None), (Missing, None, Some 0, None),
        (Rows [], None, None, None)]" "Rows []"]
  note k' = handler_keeps_cache
    [of "\<lparr>lru_cache = None\<rparr>" example_words "Rows example_rows" None None None
      "[(Rows example_rows, Some ''car'', None, None), (Missing, None, Some 0, None),
        (Rows [], None, None, None)]" "Rows []" "\<lparr>lru_cache = Some example_words\<rparr>"]
  from k c have a: "snd (get_words Missing \<lparr>lru_cache = Some example_words\<rparr> (Some ''car'') None None) =
     \<lparr>lru_cache = Some example_words\<rparr>"
    and b: "serve \<lparr>lru_cache = Some example_words\<rparr>
     [(Rows example_rows, Some ''car'', None, None), (Missing, None, Some 0, None),
      (Rows [], None, None, None)] = \<lparr>lru_cache = Some example_words\<rparr>"
    by blast+
  from k' example_first_call have d: "fst (load_words (Rows [])
     (serve \<lparr>lru_cache = Some example_words\<rparr>
        [(Rows example_rows, Some ''car'', None, None), (Missing, None, Some 0, None),
         (Rows [], None, None, None)])) = Inr example_words"
    by blast
  from c a b example_first_call d show ?thesis
    by (intro conjI)
qed

text \<open>
  C10. A backing file that exists and yields no rows loads without error as the empty
  list. A request without parameters is then answered with the empty bare list, and a
  request in paginated mode with an envelope whose total is 0 and whose items are empty
  (its page count is 0).
\<close>

theorem empty_dataset:
  "load_words_wrapped (Rows []) = Inr [] \<and>
   (lru_cache st = None \<longrightarrow>
      load_words (Rows []) st = (Inr [], st\<lparr>lru_cache := Some []\<rparr>) \<and>
      get_words (Rows []) st None None None = (Inr (Bare []), st\<lparr>lru_cache := Some []\<rparr>) \<and>
      (query_ok page limit \<and> (q \<noteq> None \<or> page \<noteq> None \<or> limit \<noteq> None) \<longrightarrow>
         (\<exists>m. get_words (Rows []) st q page limit =
                 (Inr (Envelope m []), st\<lparr>lru_cache := Some []\<rparr>) \<and>
              meta_total m = 0 \<and> meta_pages m = 0)))"
proof -
  have run: "load_words_wrapped (Rows []) = Inr []"
    by (simp add: load_words_wrapped_def)
  have filt: "filter_words [] q = Inr []" for q
    by (simp add: filter_words_def split: option.splits)
  have rest: "load_words (Rows []) st = (Inr [], st\<lparr>lru_cache := Some []\<rparr>) \<and>
      get_words (Rows []) st None None None = (Inr (Bare []), st\<lparr>lru_cache := Some []\<rparr>) \<and>
      (query_ok page limit \<and> (q \<noteq> None \<or> page \<noteq> None \<or> limit \<noteq> None) \<longrightarrow>
         (\<exists>m. get_words (Rows []) st q page limit =
                 (Inr (Envelope m []), st\<lparr>lru_cache := Some []\<rparr>) \<and>
              meta_total m = 0 \<and> meta_pages m = 0))"
    if c: "lru_cache st = None"
  proof -
    have load: "load_words (Rows []) st = (Inr [], st\<lparr>lru_cache := Some []\<rparr>)"
      using c by (simp add: load_words_def run)
    have "query_ok None None"
      by (simp add: query_ok_def)
    from get_words_loaded [OF this load filt]
    have bare: "get_words (Rows []) st None None None = (Inr (Bare []), st\<lparr>lru_cache := Some []\<rparr>)"
      by simp
    have "\<exists>m. get_words (Rows []) st q page limit =
                 (Inr (Envelope m []), st\<lparr>lru_cache := Some []\<rparr>) \<and>
              meta_total m = 0 \<and> meta_pages m = 0"
      if ok: "query_ok page limit" and some: "q \<noteq> None \<or> page \<noteq> None \<or> limit \<noteq> None"
    proof -
      have "pages 0 (int_or limit 50) = 0"
        using query_ok_limit [OF ok] by (simp add: pages_def)
      with get_words_loaded [OF ok load filt, of q] some show ?thesis
        by auto
    qed
    with load bare show ?thesis
      by blast
  qed
  with run show ?thesis
    by blast
qed

theorem empty_dataset_witness:
  "load_words_wrapped (Rows []) = Inr [] \<and>
   lru_cache \<lparr>lru_cache = None\<rparr> = None \<and>
   get_words (Rows []) \<lparr>lru_cache = None\<rparr> None None None =
     (Inr (Bare []), \<lparr>lru_cache = Some []\<rparr>) \<and>
   query_ok (Some 1) None \<and>
   (\<exists>m. get_words (Rows []) \<lparr>lru_cache = None\<rparr> (Some ''x'') (Some 1) None =
           (Inr (Envelope m []), \<lparr>lru_cache = Some []\<rparr>) \<and>
         meta_total m = 0 \<and> meta_pages m = 0)"
proof -
  note e = empty_dataset [of "\<lparr>lru_cache = None\<rparr>" "Some 1" None "Some ''x''"]
  have c: "lru_cache \<lparr>lru_cache = None\<rparr> = None"
    by simp
  have ok: "query_ok (Some 1) None"
    by (simp add: query_ok_def)
  from e have a: "load_words_wrapped (Rows []) = Inr []"
    by blast
  from e c have b: "get_words (Rows []) \<lparr>lru_cache = None\<rparr> None None None =
     (Inr (Bare []), \<lparr>lru_cache = None\<rparr>\<lparr>lru_cache := Some []\<rparr>)"
    by blast
  have "Some ''x'' \<noteq> (None :: string option) \<or> Some (1::int) \<noteq> None \<or> (None :: int option) \<noteq> None"
    by simp
  with e c ok have d: "\<exists>m. get_words (Rows []) \<lparr>lru_cache = None\<rparr> (Some ''x'') (Some 1) None =
           (Inr (Envelope m []), \<lparr>lru_cache = None\<rparr>\<lparr>lru_cache := Some []\<rparr>) \<and>
         meta_total m = 0 \<and> meta_pages m = 0"
    by blast
  from a c b ok d show ?thesis
    by simp
qed

end
